theory Spec2Isabelle
  imports Complex_Main "HOL-Library.Sublist"
begin

section \<open>The evaluation script \<open>eval.py\<close>: data model\<close>

text \<open>
  The exceptions the script can raise, as values. \<open>AssertionError\<close> carries the file
  name of the message \<open>Cannot find number in filename ...\<close>; \<open>FileNotFoundError\<close> the
  path \<open>Image.open\<close> was given; \<open>ValueError\<close> is what \<open>Image.resize\<close> raises for a size
  it rejects; \<open>ResizeIOError\<close> stands for any failure of reading, resampling or writing
  an image in the bulk resize pass.
\<close>

datatype error =
    AssertionError string
  | ZeroDivisionError
  | IndexError
  | FileNotFoundError string
  | ValueError
  | ResizeIOError string

text \<open>
  An \<open>os.DirEntry\<close> as the script uses it: the two attributes \<open>name\<close> and \<open>path\<close>.
\<close>

record entry =
  name :: string
  path :: string

section \<open>\<open>EvalDataset.extract_id_from_filename\<close>\<close>

text \<open>
  A file name is a Python \<open>str\<close>, a sequence of code points. The model is a \<open>string\<close>
  whose characters are the code points below 256. On that range \<open>str.isdigit\<close> holds of
  the ten decimal digits and of the three superscript digits U+00B2, U+00B3 and U+00B9;
  \<open>isdecimal\<close> is the narrower notion, the characters \<open>0\<close> to \<open>9\<close>.
\<close>

definition isdecimal :: "char \<Rightarrow> bool" where
  "isdecimal c = (c \<in> set ''0123456789'')"

definition isdigit :: "char \<Rightarrow> bool" where
  "isdigit c = (isdecimal c \<or> c \<in> set [CHR 0xB2, CHR 0xB3, CHR 0xB9])"

text \<open>\<open>sub in s\<close> on strings: \<open>sub\<close> starts at some position of \<open>s\<close>.\<close>

fun contains :: "string \<Rightarrow> string \<Rightarrow> bool" where
  "contains sub [] = (sub = [])"
| "contains sub (c # cs) = (prefix sub (c # cs) \<or> contains sub cs)"

text \<open>\<open>s.split(sep)\<close> for a separator of one character: never an empty list.\<close>

fun split :: "char \<Rightarrow> string \<Rightarrow> string list" where
  "split sep [] = [[]]"
| "split sep (c # cs) =
     (if c = sep then [] # split sep cs
      else (case split sep cs of [] \<Rightarrow> [[c]] | p # ps \<Rightarrow> (c # p) # ps))"

text \<open>
  The loop \<open>for i, c in enumerate(filename)\<close>: the index of the first character with
  \<open>c.isdigit()\<close>, counting from \<open>i\<close>; \<open>None\<close> when the loop ends without \<open>break\<close>.
\<close>

fun find_first_digit :: "string \<Rightarrow> nat \<Rightarrow> nat option" where
  "find_first_digit [] i = None"
| "find_first_digit (c # cs) i =
     (if isdigit c then Some i else find_first_digit cs (Suc i))"

definition extract_id_from_filename :: "string \<Rightarrow> error + string" where
  "extract_id_from_filename filename =
     (if contains ''inshop'' filename then Inr (hd (split CHR ''.'' filename))
      else (case find_first_digit filename 0 of
              None \<Rightarrow> Inl (AssertionError filename)
            | Some start_i \<Rightarrow> Inr (take 8 (drop start_i filename))))"

text \<open>
  The specification's words, for comparison: the stem of a file name is the name without
  its extension, the part before the last dot; the digit window is the 8 characters from
  the first decimal digit on.
\<close>

definition spec_stem :: "string \<Rightarrow> string" where
  "spec_stem filename =
     (if CHR ''.'' \<in> set filename
      then rev (tl (dropWhile (\<lambda>c. c \<noteq> CHR ''.'') (rev filename)))
      else filename)"

definition spec_digit_window :: "string \<Rightarrow> string" where
  "spec_digit_window filename = take 8 (dropWhile (\<lambda>c. \<not> isdecimal c) filename)"

section \<open>\<open>EvalDataset.prepare_data\<close>\<close>

text \<open>
  The two calls of \<open>scan_files_in_dir\<close> give the lists \<open>gt_files\<close> and \<open>pred_files\<close>, in
  the order of enumeration. The dictionary comprehension runs over \<open>gt_files\<close> in that
  order and stores each file under its key, so a later file replaces an earlier one with
  the same key; an exception of \<open>extract_id_from_filename\<close> leaves the comprehension.
\<close>

fun build_gt_dict :: "entry list \<Rightarrow> (string \<rightharpoonup> entry) \<Rightarrow> error + (string \<rightharpoonup> entry)" where
  "build_gt_dict [] gt_dict = Inr gt_dict"
| "build_gt_dict (file # files) gt_dict =
     (case extract_id_from_filename (name file) of
        Inl e \<Rightarrow> Inl e
      | Inr k \<Rightarrow> build_gt_dict files (gt_dict(k \<mapsto> file)))"

text \<open>
  The loop over \<open>pred_files\<close>. \<open>tuples\<close> is the list being appended to; \<open>printed\<close>
  collects the prediction files of the lines \<open>Cannot find gt file for ...\<close> written to the
  standard output.
\<close>

fun pair_loop ::
  "(string \<rightharpoonup> entry) \<Rightarrow> entry list \<Rightarrow> (string \<times> string) list \<Rightarrow> entry list
     \<Rightarrow> error + ((string \<times> string) list \<times> entry list)" where
  "pair_loop gt_dict [] tuples printed = Inr (tuples, printed)"
| "pair_loop gt_dict (pred_file # pred_files) tuples printed =
     (case extract_id_from_filename (name pred_file) of
        Inl e \<Rightarrow> Inl e
      | Inr pred_id \<Rightarrow>
          (case gt_dict pred_id of
             None \<Rightarrow> pair_loop gt_dict pred_files tuples (printed @ [pred_file])
           | Some gt_file \<Rightarrow>
               pair_loop gt_dict pred_files (tuples @ [(path gt_file, path pred_file)]) printed))"

definition prepare_data ::
  "entry list \<Rightarrow> entry list \<Rightarrow> error + ((string \<times> string) list \<times> entry list)" where
  "prepare_data gt_files pred_files =
     (case build_gt_dict gt_files Map.empty of
        Inl e \<Rightarrow> Inl e
      | Inr gt_dict \<Rightarrow> pair_loop gt_dict pred_files [] [])"

text \<open>The key of a file whose name is recognised, for the statements below.\<close>

definition key_of :: "entry \<Rightarrow> string" where
  "key_of file = (case extract_id_from_filename (name file) of Inr k \<Rightarrow> k | Inl e \<Rightarrow> [])"

definition recognised :: "entry \<Rightarrow> bool" where
  "recognised file = (case extract_id_from_filename (name file) of Inr k \<Rightarrow> True | Inl e \<Rightarrow> False)"

text \<open>
  The ground-truth file a key resolves to when the later file wins: the last file of the
  list with that key.
\<close>

definition last_with_key :: "entry list \<Rightarrow> string \<Rightarrow> entry option" where
  "last_with_key gt_files k = find (\<lambda>file. key_of file = k) (rev gt_files)"

section \<open>\<open>EvalDataset.resize\<close> and \<open>EvalDataset.__getitem__\<close>\<close>

text \<open>
  A decoded PIL image as far as the script reads it: \<open>img.size\<close> is the pair of
  \<open>width\<close> and \<open>height\<close>, and \<open>bands\<close> is the number of channels \<open>ToTensor\<close> keeps. The
  pixel values are left out. A decoded image has a positive width and a positive height.
  \<open>img.resize(size, Image.LANCZOS)\<close> raises \<open>ValueError\<close> (height and width must be > 0)
  when a component of the size is below 1, and else returns an image of that size.
\<close>

record image =
  width :: nat
  height :: nat
  bands :: nat

definition pil_resize :: "image \<Rightarrow> nat \<times> nat \<Rightarrow> error + image" where
  "pil_resize img sz =
     (if fst sz < 1 \<or> snd sz < 1 then Inl ValueError
      else Inr (img\<lparr>width := fst sz, height := snd sz\<rparr>))"

text \<open>
  \<open>int(w * self.height / h)\<close>: the product is an exact integer, \<open>/\<close> is the true
  division, which raises \<open>ZeroDivisionError\<close> for \<open>h = 0\<close> and else gives the correctly
  rounded quotient, and \<open>int\<close> cuts the fraction off. As long as the product is below
  \<open>2 ^ 53\<close> the rounded quotient of two natural numbers has the same integer part as the
  exact one, so the result is the integer quotient. The new size goes to \<open>img.resize\<close>,
  whose exception, if any, leaves \<open>resize\<close>.
\<close>

definition resize :: "nat \<Rightarrow> image \<Rightarrow> error + image" where
  "resize self_height img =
     (let w = width img; h = height img
      in if h = 0 then Inl ZeroDivisionError
         else (let new_w = w * self_height div h
               in pil_resize img (new_w, self_height)))"

text \<open>The width the specification words give: the real quotient, rounded to nearest.\<close>

definition spec_new_width :: "nat \<Rightarrow> nat \<Rightarrow> nat \<Rightarrow> int" where
  "spec_new_width w target_height h = round (real w * real target_height / real h)"

text \<open>
  The fields of an \<open>EvalDataset\<close> that \<open>__getitem__\<close> reads, and the tensor \<open>ToTensor\<close>
  makes of an image, by its shape: channels, rows and columns.
\<close>

record eval_dataset =
  self_height :: nat
  self_data :: "(string \<times> string) list"

record tensor =
  channels :: nat
  rows :: nat
  cols :: nat

definition to_tensor :: "image \<Rightarrow> tensor" where
  "to_tensor img = \<lparr>channels = bands img, rows = height img, cols = width img\<rparr>"

text \<open>\<open>Image.open\<close> on a store of image files: a path without an image raises.\<close>

definition image_open :: "(string \<rightharpoonup> image) \<Rightarrow> string \<Rightarrow> error + image" where
  "image_open files p = (case files p of None \<Rightarrow> Inl (FileNotFoundError p) | Some img \<Rightarrow> Inr img)"

definition len :: "eval_dataset \<Rightarrow> nat" where
  "len self = length (self_data self)"

text \<open>
  \<open>self.data[idx]\<close> is Python indexing: a negative index counts from the end, an index
  out of range raises \<open>IndexError\<close>. Then the ground-truth image is opened and resized,
  the prediction is opened and resized, and each is resized once more should its height
  differ from \<open>self.height\<close>.
\<close>

definition getitem :: "(string \<rightharpoonup> image) \<Rightarrow> eval_dataset \<Rightarrow> int \<Rightarrow> error + (tensor \<times> tensor)" where
  "getitem files self idx =
     (let n = int (length (self_data self)); j = (if idx < 0 then n + idx else idx)
      in if \<not> (0 \<le> j \<and> j < n) then Inl IndexError
         else (case self_data self ! nat j of (gt_path, pred_path) \<Rightarrow>
           (case image_open files gt_path of Inl e \<Rightarrow> Inl e | Inr gt_img \<Rightarrow>
           (case resize (self_height self) gt_img of Inl e \<Rightarrow> Inl e | Inr gt \<Rightarrow>
           (case image_open files pred_path of Inl e \<Rightarrow> Inl e | Inr pred_img \<Rightarrow>
           (case resize (self_height self) pred_img of Inl e \<Rightarrow> Inl e | Inr pred \<Rightarrow>
           (case (if height gt \<noteq> self_height self then resize (self_height self) gt else Inr gt) of
              Inl e \<Rightarrow> Inl e | Inr gt' \<Rightarrow>
           (case (if height pred \<noteq> self_height self then resize (self_height self) pred else Inr pred) of
              Inl e \<Rightarrow> Inl e | Inr pred' \<Rightarrow>
           Inr (to_tensor gt', to_tensor pred')))))))))"

section \<open>\<open>copy_resize_gt\<close>\<close>

text \<open>\<open>str(n)\<close> for a natural number: its decimal digits.\<close>

fun str :: "nat \<Rightarrow> string" where
  "str n = (if n < 10 then [''0123456789'' ! n]
            else str (n div 10) @ [''0123456789'' ! (n mod 10)])"

declare str.simps [simp del]

text \<open>
  The file system of the bulk pass: a folder path leads to the files of the folder, as
  \<open>os.listdir\<close> enumerates them, each name with the bytes of the file; a path that is no
  folder leads to \<open>None\<close>. The step \<open>Image.open\<close>, \<open>img.resize((width, height))\<close>, \<open>img.save\<close>
  on one file is the parameter \<open>save_resized\<close>: from the width, the height and the bytes
  read it gives the bytes to write, or the error raised, in which case nothing is written;
  writing into a folder that does not exist raises too.
\<close>

type_synonym 'b file_system = "string \<rightharpoonup> (string \<times> 'b) list"

definition exists_in :: "'b file_system \<Rightarrow> string \<Rightarrow> string \<Rightarrow> bool" where
  "exists_in fs folder file = (case fs folder of None \<Rightarrow> False | Some fl \<Rightarrow> file \<in> fst ` set fl)"

definition save_in :: "'b file_system \<Rightarrow> string \<Rightarrow> string \<Rightarrow> 'b \<Rightarrow> error + 'b file_system" where
  "save_in fs folder file bytes =
     (case fs folder of
        None \<Rightarrow> Inl (FileNotFoundError folder)
      | Some fl \<Rightarrow> Inr (fs(folder \<mapsto> fl @ [(file, bytes)])))"

text \<open>
  The loop over \<open>os.listdir(gt_folder)\<close>. The result is the exception that ended the
  loop, if any, the file system, and the names of the files written, in order.
\<close>

fun copy_loop ::
  "('b \<Rightarrow> error + 'b) \<Rightarrow> string \<Rightarrow> (string \<times> 'b) list \<Rightarrow> 'b file_system \<Rightarrow> string list
     \<Rightarrow> error option \<times> 'b file_system \<times> string list" where
  "copy_loop render new_folder [] fs written = (None, fs, written)"
| "copy_loop render new_folder ((file, bytes) # rest) fs written =
     (if exists_in fs new_folder file then copy_loop render new_folder rest fs written
      else (case render bytes of
              Inl e \<Rightarrow> (Some e, fs, written)
            | Inr out \<Rightarrow>
                (case save_in fs new_folder file out of
                   Inl e \<Rightarrow> (Some e, fs, written)
                 | Inr fs' \<Rightarrow> copy_loop render new_folder rest fs' (written @ [file]))))"

definition copy_resize_gt ::
  "(nat \<Rightarrow> nat \<Rightarrow> 'b \<Rightarrow> error + 'b) \<Rightarrow> 'b file_system \<Rightarrow> string \<Rightarrow> nat \<Rightarrow> nat
     \<Rightarrow> (error + string) \<times> 'b file_system \<times> string list" where
  "copy_resize_gt save_resized fs gt_folder target_height target_width =
     (let new_folder = gt_folder @ ''_'' @ str target_height;
          fs1 = (if fs new_folder = None then fs(new_folder \<mapsto> []) else fs)
      in (case fs1 gt_folder of
            None \<Rightarrow> (Inl (FileNotFoundError gt_folder), fs1, [])
          | Some listing \<Rightarrow>
              (case copy_loop (save_resized target_width target_height) new_folder listing fs1 [] of
                 (None, fs2, written) \<Rightarrow> (Inr new_folder, fs2, written)
               | (Some e, fs2, written) \<Rightarrow> (Inl e, fs2, written))))"

section \<open>The paired metrics \<open>psnr\<close>, \<open>ssim\<close> and \<open>lpips\<close>\<close>

text \<open>
  \<open>DataLoader(dataset, batch_size, shuffle=False, drop_last=False)\<close> yields the samples
  in order, \<open>batch_size\<close> at a time, the last batch with the samples that remain. A batch
  of pairs is collated into the pair of the ground-truth tensors and the prediction
  tensors, so \<open>gt.size(0)\<close> is the number of samples of the batch.
\<close>

fun chunks :: "nat \<Rightarrow> 'a list \<Rightarrow> 'a list list" where
  "chunks batch_size [] = []"
| "chunks batch_size (x # xs) =
     (if batch_size = 0 then []
      else take batch_size (x # xs) # chunks batch_size (drop batch_size (x # xs)))"

record 's dataloader =
  dataset :: "'s list"
  batches :: "'s list list"

definition DataLoader :: "'s list \<Rightarrow> nat \<Rightarrow> 's dataloader" where
  "DataLoader ds batch_size = \<lparr>dataset = ds, batches = chunks batch_size ds\<rparr>"

text \<open>
  The metric objects are collaborators: a function of the prediction batch and the
  ground-truth batch. Their values are tensors of one floating-point number; the model
  computes with real numbers. The three loops add the value of each batch times the size
  of the batch to the score, which starts at the integer \<open>0\<close>.
\<close>

fun psnr_loop :: "('t list \<Rightarrow> 't list \<Rightarrow> real) \<Rightarrow> ('t \<times> 't) list list \<Rightarrow> real \<Rightarrow> real" where
  "psnr_loop psnr_metric [] psnr_score = psnr_score"
| "psnr_loop psnr_metric (batch # rest) psnr_score =
     (let gt = map fst batch; pred = map snd batch; batch_size = length gt
      in psnr_loop psnr_metric rest (psnr_score + psnr_metric pred gt * real batch_size))"

fun ssim_loop :: "('t list \<Rightarrow> 't list \<Rightarrow> real) \<Rightarrow> ('t \<times> 't) list list \<Rightarrow> real \<Rightarrow> real" where
  "ssim_loop ssim_metric [] ssim_score = ssim_score"
| "ssim_loop ssim_metric (batch # rest) ssim_score =
     (let gt = map fst batch; pred = map snd batch; batch_size = length gt
      in ssim_loop ssim_metric rest (ssim_score + ssim_metric pred gt * real batch_size))"

text \<open>
  \<open>lpips\<close> rescales both batches by \<open>x * 2 - 1\<close>, the parameter \<open>rescale\<close> on one tensor,
  and gives the metric the ground truth first.
\<close>

fun lpips_loop ::
  "('t list \<Rightarrow> 't list \<Rightarrow> real) \<Rightarrow> ('t \<Rightarrow> 't) \<Rightarrow> ('t \<times> 't) list list \<Rightarrow> real \<Rightarrow> real" where
  "lpips_loop lpips_score rescale [] score = score"
| "lpips_loop lpips_score rescale (batch # rest) score =
     (let gt = map fst batch; pred = map snd batch; batch_size = length gt;
          gt = map rescale gt; pred = map rescale pred
      in lpips_loop lpips_score rescale rest (score + lpips_score gt pred * real batch_size))"

text \<open>
  The final division is by \<open>len(dataloader.dataset)\<close>. For an empty dataset there is no
  batch, the score is still the integer \<open>0\<close> and the division raises.
\<close>

definition psnr :: "('t list \<Rightarrow> 't list \<Rightarrow> real) \<Rightarrow> ('t \<times> 't) dataloader \<Rightarrow> error + real" where
  "psnr psnr_metric dl =
     (let psnr_score = psnr_loop psnr_metric (batches dl) 0
      in if length (dataset dl) = 0 then Inl ZeroDivisionError
         else Inr (psnr_score / real (length (dataset dl))))"

definition ssim :: "('t list \<Rightarrow> 't list \<Rightarrow> real) \<Rightarrow> ('t \<times> 't) dataloader \<Rightarrow> error + real" where
  "ssim ssim_metric dl =
     (let ssim_score = ssim_loop ssim_metric (batches dl) 0
      in if length (dataset dl) = 0 then Inl ZeroDivisionError
         else Inr (ssim_score / real (length (dataset dl))))"

definition lpips ::
  "('t list \<Rightarrow> 't list \<Rightarrow> real) \<Rightarrow> ('t \<Rightarrow> 't) \<Rightarrow> ('t \<times> 't) dataloader \<Rightarrow> error + real" where
  "lpips lpips_score rescale dl =
     (let score = lpips_loop lpips_score rescale (batches dl) 0
      in if length (dataset dl) = 0 then Inl ZeroDivisionError
         else Inr (score / real (length (dataset dl))))"

section \<open>Properties of the key extraction\<close>

lemma split_not_Nil: "split sep s \<noteq> []"
  by (induction s) (auto split: list.splits)

lemma hd_split: "hd (split sep s) = takeWhile (\<lambda>c. c \<noteq> sep) s"
proof (induction s)
  case Nil
  show ?case by simp
next
  case (Cons c cs)
  then show ?case
    using split_not_Nil [of sep cs] by (cases "split sep cs") auto
qed

lemma find_first_digit_None:
  "\<forall>c \<in> set cs. \<not> isdigit c \<Longrightarrow> find_first_digit cs i = None"
  by (induction cs arbitrary: i) auto

lemma find_first_digit_Some:
  "\<exists>c \<in> set cs. isdigit c \<Longrightarrow>
     \<exists>j < length cs. find_first_digit cs i = Some (i + j) \<and> isdigit (cs ! j)
        \<and> (\<forall>k < j. \<not> isdigit (cs ! k))"
proof (induction cs arbitrary: i)
  case Nil
  then show ?case by simp
next
  case (Cons c cs)
  show ?case
  proof (cases "isdigit c")
    case True
    then have "find_first_digit (c # cs) i = Some (i + 0) \<and> isdigit ((c # cs) ! 0)
        \<and> (\<forall>k < (0::nat). \<not> isdigit ((c # cs) ! k))"
      by simp
    then show ?thesis by blast
  next
    case False
    with Cons.prems have "\<exists>c \<in> set cs. isdigit c" by auto
    from Cons.IH [OF this, of "Suc i"] obtain j where j: "j < length cs"
      "find_first_digit cs (Suc i) = Some (Suc i + j)" "isdigit (cs ! j)"
      "\<forall>k < j. \<not> isdigit (cs ! k)"
      by blast
    have "\<forall>k < Suc j. \<not> isdigit ((c # cs) ! k)"
    proof (intro allI impI)
      fix k assume "k < Suc j"
      then show "\<not> isdigit ((c # cs) ! k)"
        using False j(4) by (cases k) auto
    qed
    with j False have "Suc j < length (c # cs) \<and> find_first_digit (c # cs) i = Some (i + Suc j)
        \<and> isdigit ((c # cs) ! Suc j) \<and> (\<forall>k < Suc j. \<not> isdigit ((c # cs) ! k))"
      by simp
    then show ?thesis by blast
  qed
qed

lemma spec_stem_one_dot:
  assumes "count_list filename CHR ''.'' \<le> 1"
  shows "spec_stem filename = takeWhile (\<lambda>c. c \<noteq> CHR ''.'') filename"
proof (cases "CHR ''.'' \<in> set filename")
  case False
  then have "\<forall>c \<in> set filename. c \<noteq> CHR ''.''" by auto
  then have "takeWhile (\<lambda>c. c \<noteq> CHR ''.'') filename = filename"
    by (simp add: takeWhile_eq_all_conv)
  then show ?thesis using False unfolding spec_stem_def by (simp only: if_False)
next
  case True
  then obtain a b where ab: "filename = a @ CHR ''.'' # b" "CHR ''.'' \<notin> set a"
    by (meson split_list_first)
  with assms have "count_list b CHR ''.'' = 0" by simp
  then have b: "CHR ''.'' \<notin> set b" by (simp add: count_list_0_iff)
  have "dropWhile (\<lambda>c. c \<noteq> CHR ''.'') (rev b @ CHR ''.'' # rev a) = CHR ''.'' # rev a"
    using b by (auto simp: dropWhile_append3)
  moreover have "takeWhile (\<lambda>c. c \<noteq> CHR ''.'') (a @ CHR ''.'' # b) = a"
  proof -
    have "\<forall>c \<in> set a. c \<noteq> CHR ''.''" using ab(2) by auto
    then have "takeWhile (\<lambda>c. c \<noteq> CHR ''.'') a = a"
      by (simp add: takeWhile_eq_all_conv)
    then show ?thesis by (simp add: takeWhile_tail)
  qed
  ultimately show ?thesis using ab(1) True by (simp add: spec_stem_def)
qed

lemma extract_error:
  "extract_id_from_filename filename = Inl e \<Longrightarrow> e = AssertionError filename"
  by (auto simp: extract_id_from_filename_def split: if_splits option.splits)

lemma extract_inshop:
  "contains ''inshop'' filename \<Longrightarrow>
     extract_id_from_filename filename = Inr (takeWhile (\<lambda>c. c \<noteq> CHR ''.'') filename)"
  by (simp add: extract_id_from_filename_def hd_split)

text \<open>
  C3, as amended. For every file name that does not contain the tag \<open>inshop\<close> but
  contains at least one character that \<open>str.isdigit\<close> accepts (a decimal digit or a
  superscript digit), \<open>extract_id_from_filename\<close> returns the characters of the name
  from the position \<open>i\<close> of the first such character on: 8 of them, whatever they are,
  or the fewer ones that remain when the name ends before \<open>i + 8\<close>.
\<close>

theorem extract_digit_window:
  assumes "\<not> contains ''inshop'' filename" and "\<exists>c \<in> set filename. isdigit c"
  shows "\<exists>i < length filename. isdigit (filename ! i) \<and> (\<forall>j < i. \<not> isdigit (filename ! j))
     \<and> extract_id_from_filename filename = Inr (take 8 (drop i filename))
     \<and> length (take 8 (drop i filename)) = min 8 (length filename - i)"
proof -
  from find_first_digit_Some [OF assms(2), of 0] obtain i where i: "i < length filename"
    "find_first_digit filename 0 = Some i" "isdigit (filename ! i)"
    "\<forall>j < i. \<not> isdigit (filename ! j)"
    by auto
  from assms(1) i(2) have "extract_id_from_filename filename = Inr (take 8 (drop i filename))"
    by (simp add: extract_id_from_filename_def)
  moreover have "length (take 8 (drop i filename)) = min 8 (length filename - i)"
    by simp
  ultimately show ?thesis using i(1,3,4) by blast
qed

theorem extract_digit_window_witness:
  "\<not> contains ''inshop'' ''photo_00012345.png''
   \<and> list_ex isdigit ''photo_00012345.png''
   \<and> extract_id_from_filename ''photo_00012345.png'' = Inr ''00012345''"
proof -
  have h1: "\<not> contains ''inshop'' ''photo_00012345.png''" by simp
  have h2: "\<exists>c \<in> set ''photo_00012345.png''. isdigit c"
    by (simp add: isdigit_def isdecimal_def)
  from extract_digit_window [OF h1 h2] obtain i where i: "i < length ''photo_00012345.png''"
    "isdigit (''photo_00012345.png'' ! i)" "\<forall>j < i. \<not> isdigit (''photo_00012345.png'' ! j)"
    "extract_id_from_filename ''photo_00012345.png'' = Inr (take 8 (drop i ''photo_00012345.png''))"
    by blast
  have six: "isdigit (''photo_00012345.png'' ! 6)" by (simp add: isdigit_def isdecimal_def)
  have "\<not> i < 6"
  proof
    assume "i < 6"
    then consider "i = 0" | "i = 1" | "i = 2" | "i = 3" | "i = 4" | "i = 5" by linarith
    then show False using i(2) by cases (simp_all add: isdigit_def isdecimal_def)
  qed
  moreover have "\<not> 6 < i" using i(3) six by blast
  ultimately have "i = 6" by simp
  with i(4) have "extract_id_from_filename ''photo_00012345.png'' = Inr ''00012345''" by simp
  with h1 h2 show ?thesis by (simp add: list_ex_iff)
qed

text \<open>
  C3 as stated fails: the name below holds decimal digits, and the 8 characters from its
  first decimal digit on are \<open>00012345\<close>; the loop stops earlier, at the superscript two.
\<close>

theorem extract_decimal_window_counterexample:
  "\<not> contains ''inshop'' (CHR ''v'' # CHR 0xB2 # ''_00012345.png'')
   \<and> list_ex isdecimal (CHR ''v'' # CHR 0xB2 # ''_00012345.png'')
   \<and> spec_digit_window (CHR ''v'' # CHR 0xB2 # ''_00012345.png'') = ''00012345''
   \<and> extract_id_from_filename (CHR ''v'' # CHR 0xB2 # ''_00012345.png'')
       = Inr (CHR 0xB2 # ''_000123'')
   \<and> extract_id_from_filename (CHR ''v'' # CHR 0xB2 # ''_00012345.png'')
       \<noteq> Inr (spec_digit_window (CHR ''v'' # CHR 0xB2 # ''_00012345.png''))"
  by (simp add: extract_id_from_filename_def spec_digit_window_def isdigit_def isdecimal_def)

text \<open>
  C4, as amended. For every file name containing the tag \<open>inshop\<close>,
  \<open>extract_id_from_filename\<close> returns the part of the name before its first dot. That
  part is the stem when the name has at most one dot, and extraction is idempotent when
  the tag lies in that part: extracting from such a key returns the key.
\<close>

theorem extract_inshop_prefix:
  assumes "contains ''inshop'' filename"
  shows "extract_id_from_filename filename = Inr (takeWhile (\<lambda>c. c \<noteq> CHR ''.'') filename)
     \<and> (count_list filename CHR ''.'' \<le> 1 \<longrightarrow>
          takeWhile (\<lambda>c. c \<noteq> CHR ''.'') filename = spec_stem filename)
     \<and> (contains ''inshop'' (takeWhile (\<lambda>c. c \<noteq> CHR ''.'') filename) \<longrightarrow>
          extract_id_from_filename (takeWhile (\<lambda>c. c \<noteq> CHR ''.'') filename)
            = Inr (takeWhile (\<lambda>c. c \<noteq> CHR ''.'') filename))"
  using assms by (simp add: extract_inshop spec_stem_one_dot)

theorem extract_inshop_prefix_witness:
  "contains ''inshop'' ''shirt_inshop.jpg''
   \<and> count_list ''shirt_inshop.jpg'' CHR ''.'' \<le> 1
   \<and> contains ''inshop'' ''shirt_inshop''
   \<and> extract_id_from_filename ''shirt_inshop.jpg'' = Inr ''shirt_inshop''
   \<and> spec_stem ''shirt_inshop.jpg'' = ''shirt_inshop''
   \<and> extract_id_from_filename ''shirt_inshop'' = Inr ''shirt_inshop''"
proof -
  have h: "contains ''inshop'' ''shirt_inshop.jpg''" by simp
  show ?thesis using extract_inshop_prefix [OF h] by (simp add: spec_stem_def)
qed

text \<open>
  C4 as stated fails on a name with two dots: the key is cut at the first dot, it is not
  the stem, and extracting from the key gives another key.
\<close>

theorem extract_inshop_stem_counterexample:
  "contains ''inshop'' ''img_1.5_inshop.jpg''
   \<and> extract_id_from_filename ''img_1.5_inshop.jpg'' = Inr ''img_1''
   \<and> spec_stem ''img_1.5_inshop.jpg'' = ''img_1.5_inshop''
   \<and> extract_id_from_filename ''img_1'' = Inr ''1''"
  by (simp add: extract_id_from_filename_def spec_stem_def isdigit_def isdecimal_def)

section \<open>Properties of the pairing\<close>

lemma recognised_extract:
  "recognised file \<Longrightarrow> extract_id_from_filename (name file) = Inr (key_of file)"
  by (simp add: recognised_def key_of_def split: sum.splits)

lemma find_snoc:
  "find P (xs @ [x]) = (case find P xs of Some y \<Rightarrow> Some y | None \<Rightarrow> if P x then Some x else None)"
  by (induction xs) auto

lemma last_with_key_Cons:
  "last_with_key (file # files) k =
     (case last_with_key files k of
        Some g \<Rightarrow> Some g
      | None \<Rightarrow> if key_of file = k then Some file else None)"
  by (simp add: last_with_key_def find_snoc)

lemma last_with_key_None: "last_with_key files k = None \<longleftrightarrow> k \<notin> key_of ` set files"
  by (auto simp: last_with_key_def find_None_iff)

lemma last_with_key_Some:
  "last_with_key files k = Some g \<longleftrightarrow>
     (\<exists>a b. files = a @ g # b \<and> key_of g = k \<and> (\<forall>f \<in> set b. key_of f \<noteq> k))"
proof (induction files)
  case Nil
  show ?case by (simp add: last_with_key_def)
next
  case (Cons x files)
  show ?case
  proof (cases "last_with_key files k")
    case None
    then have no: "\<forall>f \<in> set files. key_of f \<noteq> k"
      using last_with_key_None [of files k] by auto
    show ?thesis
    proof
      assume "last_with_key (x # files) k = Some g"
      with None have "key_of x = k" "g = x"
        by (auto simp: last_with_key_Cons split: if_splits)
      with no have "x # files = [] @ g # files \<and> key_of g = k \<and> (\<forall>f \<in> set files. key_of f \<noteq> k)"
        by simp
      then show "\<exists>a b. x # files = a @ g # b \<and> key_of g = k \<and> (\<forall>f \<in> set b. key_of f \<noteq> k)"
        by blast
    next
      assume "\<exists>a b. x # files = a @ g # b \<and> key_of g = k \<and> (\<forall>f \<in> set b. key_of f \<noteq> k)"
      then obtain a b where ab: "x # files = a @ g # b" "key_of g = k" by blast
      have "a = []"
      proof (cases a)
        case Nil then show ?thesis .
      next
        case (Cons x a')
        with ab(1) have "g \<in> set files" by auto
        with no ab(2) show ?thesis by blast
      qed
      with ab have "g = x" by simp
      with ab(2) None show "last_with_key (x # files) k = Some g"
        by (simp add: last_with_key_Cons)
    qed
  next
    case (Some h)
    with Cons.IH have step: "last_with_key (x # files) k = Some g \<longleftrightarrow>
        (\<exists>a b. files = a @ g # b \<and> key_of g = k \<and> (\<forall>f \<in> set b. key_of f \<noteq> k))"
      by (simp add: last_with_key_Cons)
    have "(\<exists>a b. files = a @ g # b \<and> key_of g = k \<and> (\<forall>f \<in> set b. key_of f \<noteq> k))
       \<longleftrightarrow> (\<exists>a b. x # files = a @ g # b \<and> key_of g = k \<and> (\<forall>f \<in> set b. key_of f \<noteq> k))"
    proof
      assume "\<exists>a b. files = a @ g # b \<and> key_of g = k \<and> (\<forall>f \<in> set b. key_of f \<noteq> k)"
      then obtain a b where "files = a @ g # b" "key_of g = k" "\<forall>f \<in> set b. key_of f \<noteq> k"
        by blast
      then have "x # files = (x # a) @ g # b \<and> key_of g = k \<and> (\<forall>f \<in> set b. key_of f \<noteq> k)"
        by simp
      then show "\<exists>a b. x # files = a @ g # b \<and> key_of g = k \<and> (\<forall>f \<in> set b. key_of f \<noteq> k)"
        by blast
    next
      assume "\<exists>a b. x # files = a @ g # b \<and> key_of g = k \<and> (\<forall>f \<in> set b. key_of f \<noteq> k)"
      then obtain a b where ab: "x # files = a @ g # b" "key_of g = k"
        "\<forall>f \<in> set b. key_of f \<noteq> k"
        by blast
      have "a \<noteq> []"
      proof
        assume "a = []"
        with ab(1) have "files = b" by simp
        with ab(3) have "last_with_key files k = None"
          using last_with_key_None [of files k] by auto
        with Some show False by simp
      qed
      then obtain a' where "a = x # a'" using ab(1) by (cases a) auto
      with ab show "\<exists>a b. files = a @ g # b \<and> key_of g = k \<and> (\<forall>f \<in> set b. key_of f \<noteq> k)"
        by auto
    qed
    with step show ?thesis by simp
  qed
qed

lemma build_gt_dict_ok:
  "\<forall>f \<in> set files. recognised f \<Longrightarrow>
     build_gt_dict files d =
       Inr (\<lambda>k. case last_with_key files k of Some g \<Rightarrow> Some g | None \<Rightarrow> d k)"
proof (induction files arbitrary: d)
  case Nil
  show ?case by (simp add: last_with_key_def)
next
  case (Cons x files)
  then have "build_gt_dict (x # files) d =
      Inr (\<lambda>k. case last_with_key files k of Some g \<Rightarrow> Some g | None \<Rightarrow> (d(key_of x \<mapsto> x)) k)"
    by (simp add: recognised_extract)
  moreover have "(\<lambda>k. case last_with_key files k of Some g \<Rightarrow> Some g | None \<Rightarrow> (d(key_of x \<mapsto> x)) k)
     = (\<lambda>k. case last_with_key (x # files) k of Some g \<Rightarrow> Some g | None \<Rightarrow> d k)"
    by (auto simp: last_with_key_Cons fun_eq_iff split: option.splits)
  ultimately show ?case by simp
qed

lemma pair_loop_ok:
  "\<forall>p \<in> set preds. recognised p \<Longrightarrow>
     pair_loop d preds tuples printed =
       Inr (tuples @ List.map_filter (\<lambda>p. map_option (\<lambda>g. (path g, path p)) (d (key_of p))) preds,
            printed @ filter (\<lambda>p. d (key_of p) = None) preds)"
proof (induction preds arbitrary: tuples printed)
  case Nil
  show ?case by simp
next
  case (Cons p preds)
  then show ?case
    by (cases "d (key_of p)") (simp_all add: recognised_extract)
qed


lemma in_set_map_filter:
  "t \<in> set (List.map_filter f xs) \<longleftrightarrow> (\<exists>x \<in> set xs. f x = Some t)"
  by (induction xs) (auto split: option.splits)

lemma snd_map_filter_pairs:
  "map snd (List.map_filter (\<lambda>p. map_option (\<lambda>g. (path g, path p)) (L (key_of p))) preds)
     = map path (filter (\<lambda>p. L (key_of p) \<noteq> None) preds)"
  by (induction preds) (auto simp: split: option.splits)

lemma build_gt_dict_error:
  "build_gt_dict files d = Inl e \<Longrightarrow> \<exists>f. e = AssertionError f"
  by (induction files arbitrary: d) (auto split: sum.splits dest: extract_error)

lemma build_gt_dict_fails:
  "x \<in> set files \<Longrightarrow> \<not> recognised x \<Longrightarrow> \<exists>e. build_gt_dict files d = Inl e"
  by (induction files arbitrary: d) (auto simp: recognised_def split: sum.splits)

lemma pair_loop_error:
  "pair_loop d preds tuples printed = Inl e \<Longrightarrow> \<exists>f. e = AssertionError f"
  by (induction preds arbitrary: tuples printed)
     (auto split: sum.splits option.splits dest: extract_error)

lemma pair_loop_fails:
  "x \<in> set preds \<Longrightarrow> \<not> recognised x \<Longrightarrow> \<exists>e. pair_loop d preds tuples printed = Inl e"
  by (induction preds arbitrary: tuples printed)
     (auto simp: recognised_def split: sum.splits option.splits)

lemma prepare_data_fails:
  assumes "x \<in> set gt_files \<union> set pred_files" and "\<not> recognised x"
  shows "\<exists>f. prepare_data gt_files pred_files = Inl (AssertionError f)"
proof (cases "build_gt_dict gt_files Map.empty")
  case (Inl e)
  then show ?thesis using build_gt_dict_error [OF Inl] by (auto simp: prepare_data_def)
next
  case (Inr d)
  with assms build_gt_dict_fails [of x gt_files Map.empty] have "x \<in> set pred_files"
    by auto
  from pair_loop_fails [OF this assms(2), of d "[]" "[]"] obtain e
    where e: "pair_loop d pred_files [] [] = Inl e" by blast
  with pair_loop_error [OF e] Inr show ?thesis by (auto simp: prepare_data_def)
qed

text \<open>
  C5, as amended. For every file name that contains neither the tag \<open>inshop\<close> nor a
  character that \<open>str.isdigit\<close> accepts, \<open>extract_id_from_filename\<close> fails with the
  assertion error that carries the name, and the failure is fatal: whenever such a name is
  among the ground-truth or the prediction files, \<open>prepare_data\<close> returns no pair list but
  an assertion error, since nothing catches it on the way.
\<close>

theorem extract_unrecognised_fatal:
  assumes "\<not> contains ''inshop'' filename" and "\<forall>c \<in> set filename. \<not> isdigit c"
  shows "extract_id_from_filename filename = Inl (AssertionError filename)
     \<and> (\<forall>gt_files pred_files. filename \<in> name ` (set gt_files \<union> set pred_files) \<longrightarrow>
          (\<exists>f. prepare_data gt_files pred_files = Inl (AssertionError f)))"
proof -
  have ex: "extract_id_from_filename filename = Inl (AssertionError filename)"
    using assms by (simp add: extract_id_from_filename_def find_first_digit_None)
  have "\<exists>f. prepare_data gt_files pred_files = Inl (AssertionError f)"
    if "filename \<in> name ` (set gt_files \<union> set pred_files)" for gt_files pred_files
  proof -
    from that obtain x where x: "x \<in> set gt_files \<union> set pred_files" "name x = filename"
      by auto
    with ex have "\<not> recognised x" by (simp add: recognised_def)
    with x(1) show ?thesis by (rule prepare_data_fails)
  qed
  with ex show ?thesis by blast
qed

theorem extract_unrecognised_fatal_witness:
  "\<not> contains ''inshop'' ''cover.png''
   \<and> \<not> list_ex isdigit ''cover.png''
   \<and> extract_id_from_filename ''cover.png'' = Inl (AssertionError ''cover.png'')
   \<and> (\<exists>f. prepare_data [\<lparr>name = ''photo_00012345.png'', path = ''gt/photo_00012345.png''\<rparr>]
         [\<lparr>name = ''cover.png'', path = ''pred/cover.png''\<rparr>] = Inl (AssertionError f))"
proof -
  have h1: "\<not> contains ''inshop'' ''cover.png''" by simp
  have h2: "\<forall>c \<in> set ''cover.png''. \<not> isdigit c" by (simp add: isdigit_def isdecimal_def)
  have h3: "''cover.png'' \<in> name ` (set [\<lparr>name = ''photo_00012345.png'', path = ''gt/photo_00012345.png''\<rparr>]
      \<union> set [\<lparr>name = ''cover.png'', path = ''pred/cover.png''\<rparr>])" by simp
  from extract_unrecognised_fatal [OF h1 h2] h3 h1 h2 show ?thesis
    by (simp add: list_ex_iff del: set_simps)
qed

text \<open>
  C5 as stated fails: the name below has neither the tag nor a decimal digit, and
  extraction succeeds on it, with the key starting at the superscript two.
\<close>

theorem extract_no_decimal_counterexample:
  "\<not> contains ''inshop'' (CHR ''a'' # CHR 0xB2 # ''.png'')
   \<and> \<not> list_ex isdecimal (CHR ''a'' # CHR 0xB2 # ''.png'')
   \<and> extract_id_from_filename (CHR ''a'' # CHR 0xB2 # ''.png'') = Inr (CHR 0xB2 # ''.png'')"
  by (simp add: extract_id_from_filename_def isdigit_def isdecimal_def)

text \<open>
  C6. When every file name is recognised, \<open>prepare_data\<close> returns, in the order of the
  prediction files, exactly one pair for each prediction whose key is a key of the
  ground-truth files, made of the path of the ground-truth file under that key and the
  path of the prediction; each prediction whose key is absent is reported on the standard
  output and left out. Ground-truth files no prediction refers to appear nowhere. The
  instance with ground-truth keys A, B and prediction keys A, C follows the theorem.
\<close>

theorem prepare_data_inner_join:
  assumes "\<forall>f \<in> set gt_files. recognised f" and "\<forall>p \<in> set pred_files. recognised p"
  shows "\<exists>tuples printed. prepare_data gt_files pred_files = Inr (tuples, printed)
     \<and> tuples = List.map_filter
          (\<lambda>p. map_option (\<lambda>g. (path g, path p)) (last_with_key gt_files (key_of p))) pred_files
     \<and> map snd tuples = map path (filter (\<lambda>p. key_of p \<in> key_of ` set gt_files) pred_files)
     \<and> printed = filter (\<lambda>p. key_of p \<notin> key_of ` set gt_files) pred_files"
proof -
  let ?d = "\<lambda>k. last_with_key gt_files k"
  have d: "build_gt_dict gt_files Map.empty = Inr ?d"
    using build_gt_dict_ok [OF assms(1), of Map.empty]
    by (simp add: option.case_eq_if fun_eq_iff)
  have "prepare_data gt_files pred_files =
      Inr (List.map_filter (\<lambda>p. map_option (\<lambda>g. (path g, path p)) (?d (key_of p))) pred_files,
           filter (\<lambda>p. ?d (key_of p) = None) pred_files)"
    using pair_loop_ok [OF assms(2), of ?d "[]" "[]"] d by (simp add: prepare_data_def)
  then show ?thesis
    using snd_map_filter_pairs [of ?d pred_files] by (simp add: last_with_key_None)
qed


theorem prepare_data_inner_join_witness:
  "list_all recognised
     [\<lparr>name = ''a_00000001.jpg'', path = ''gt/a_00000001.jpg''\<rparr>,
      \<lparr>name = ''b_00000002.jpg'', path = ''gt/b_00000002.jpg''\<rparr>]
   \<and> list_all recognised
     [\<lparr>name = ''x_00000001_out.png'', path = ''pred/x_00000001_out.png''\<rparr>,
      \<lparr>name = ''y_00000003_out.png'', path = ''pred/y_00000003_out.png''\<rparr>]
   \<and> prepare_data
        [\<lparr>name = ''a_00000001.jpg'', path = ''gt/a_00000001.jpg''\<rparr>,
         \<lparr>name = ''b_00000002.jpg'', path = ''gt/b_00000002.jpg''\<rparr>]
        [\<lparr>name = ''x_00000001_out.png'', path = ''pred/x_00000001_out.png''\<rparr>,
         \<lparr>name = ''y_00000003_out.png'', path = ''pred/y_00000003_out.png''\<rparr>]
      = Inr ([(''gt/a_00000001.jpg'', ''pred/x_00000001_out.png'')],
             [\<lparr>name = ''y_00000003_out.png'', path = ''pred/y_00000003_out.png''\<rparr>])"
proof -
  let ?gt = "[\<lparr>name = ''a_00000001.jpg'', path = ''gt/a_00000001.jpg''\<rparr>,
      \<lparr>name = ''b_00000002.jpg'', path = ''gt/b_00000002.jpg''\<rparr>]"
  let ?pred = "[\<lparr>name = ''x_00000001_out.png'', path = ''pred/x_00000001_out.png''\<rparr>,
      \<lparr>name = ''y_00000003_out.png'', path = ''pred/y_00000003_out.png''\<rparr>]"
  have h1: "\<forall>f \<in> set ?gt. recognised f"
    by (simp add: recognised_def extract_id_from_filename_def isdigit_def isdecimal_def)
  have h2: "\<forall>p \<in> set ?pred. recognised p"
    by (simp add: recognised_def extract_id_from_filename_def isdigit_def isdecimal_def)
  have k: "key_of \<lparr>name = ''a_00000001.jpg'', path = ''gt/a_00000001.jpg''\<rparr> = ''00000001''"
    "key_of \<lparr>name = ''b_00000002.jpg'', path = ''gt/b_00000002.jpg''\<rparr> = ''00000002''"
    "key_of \<lparr>name = ''x_00000001_out.png'', path = ''pred/x_00000001_out.png''\<rparr> = ''00000001''"
    "key_of \<lparr>name = ''y_00000003_out.png'', path = ''pred/y_00000003_out.png''\<rparr> = ''00000003''"
    by (simp_all add: key_of_def extract_id_from_filename_def isdigit_def isdecimal_def)
  from prepare_data_inner_join [OF h1 h2] obtain tuples printed where
    r: "prepare_data ?gt ?pred = Inr (tuples, printed)"
    and t: "tuples = List.map_filter
          (\<lambda>p. map_option (\<lambda>g. (path g, path p)) (last_with_key ?gt (key_of p))) ?pred"
    and p: "printed = filter (\<lambda>p. key_of p \<notin> key_of ` set ?gt) ?pred"
    by blast
  have "tuples = [(''gt/a_00000001.jpg'', ''pred/x_00000001_out.png'')]"
    unfolding t by (simp add: last_with_key_def k)
  moreover have "printed = [\<lparr>name = ''y_00000003_out.png'', path = ''pred/y_00000003_out.png''\<rparr>]"
    unfolding p by (simp add: k)
  ultimately show ?thesis using r h1 h2 by (simp add: list_all_iff)
qed

text \<open>
  C7. When every file name is recognised, building the dictionary raises nothing, and
  the dictionary maps a key to a file exactly when that file is the last one of
  \<open>gt_files\<close> with the key: no file after it has the same key. Every pair of
  \<open>prepare_data\<close> holds the path of that last file for the key of its prediction.
\<close>

theorem gt_dict_last_write_wins:
  assumes "\<forall>f \<in> set gt_files. recognised f" and "\<forall>p \<in> set pred_files. recognised p"
  shows "\<exists>gt_dict tuples printed.
       build_gt_dict gt_files Map.empty = Inr gt_dict
     \<and> (\<forall>k g. gt_dict k = Some g \<longleftrightarrow>
           (\<exists>a b. gt_files = a @ g # b \<and> key_of g = k \<and> (\<forall>f \<in> set b. key_of f \<noteq> k)))
     \<and> prepare_data gt_files pred_files = Inr (tuples, printed)
     \<and> (\<forall>t \<in> set tuples. \<exists>p g a b. p \<in> set pred_files \<and> t = (path g, path p)
           \<and> gt_files = a @ g # b \<and> key_of g = key_of p
           \<and> (\<forall>f \<in> set b. key_of f \<noteq> key_of p))"
proof -
  let ?d = "\<lambda>k. last_with_key gt_files k"
  let ?tuples = "List.map_filter
      (\<lambda>p. map_option (\<lambda>g. (path g, path p)) (?d (key_of p))) pred_files"
  let ?printed = "filter (\<lambda>p. ?d (key_of p) = None) pred_files"
  have d: "build_gt_dict gt_files Map.empty = Inr ?d"
    using build_gt_dict_ok [OF assms(1), of Map.empty]
    by (simp add: option.case_eq_if fun_eq_iff)
  have r: "prepare_data gt_files pred_files = Inr (?tuples, ?printed)"
    using pair_loop_ok [OF assms(2), of ?d "[]" "[]"] d by (simp add: prepare_data_def)
  have last: "\<forall>k g. ?d k = Some g \<longleftrightarrow>
      (\<exists>a b. gt_files = a @ g # b \<and> key_of g = k \<and> (\<forall>f \<in> set b. key_of f \<noteq> k))"
    by (simp add: last_with_key_Some)
  have "\<exists>p g a b. p \<in> set pred_files \<and> t = (path g, path p)
           \<and> gt_files = a @ g # b \<and> key_of g = key_of p
           \<and> (\<forall>f \<in> set b. key_of f \<noteq> key_of p)" if "t \<in> set ?tuples" for t
  proof -
    from that obtain p where p: "p \<in> set pred_files"
      "map_option (\<lambda>g. (path g, path p)) (?d (key_of p)) = Some t"
      by (auto simp: in_set_map_filter)
    then obtain g where g: "?d (key_of p) = Some g" "t = (path g, path p)" by auto
    from g(1) last obtain a b where "gt_files = a @ g # b" "key_of g = key_of p"
      "\<forall>f \<in> set b. key_of f \<noteq> key_of p"
      by blast
    with p(1) g(2) show ?thesis by blast
  qed
  with d r last show ?thesis by blast
qed

theorem gt_dict_last_write_wins_witness:
  "list_all recognised
     [\<lparr>name = ''a_00000001.jpg'', path = ''gt/a_00000001.jpg''\<rparr>,
      \<lparr>name = ''b_00000001.jpg'', path = ''gt/b_00000001.jpg''\<rparr>]
   \<and> list_all recognised [\<lparr>name = ''x_00000001_out.png'', path = ''pred/x_00000001_out.png''\<rparr>]
   \<and> key_of \<lparr>name = ''a_00000001.jpg'', path = ''gt/a_00000001.jpg''\<rparr>
       = key_of \<lparr>name = ''b_00000001.jpg'', path = ''gt/b_00000001.jpg''\<rparr>
   \<and> prepare_data
        [\<lparr>name = ''a_00000001.jpg'', path = ''gt/a_00000001.jpg''\<rparr>,
         \<lparr>name = ''b_00000001.jpg'', path = ''gt/b_00000001.jpg''\<rparr>]
        [\<lparr>name = ''x_00000001_out.png'', path = ''pred/x_00000001_out.png''\<rparr>]
      = Inr ([(''gt/b_00000001.jpg'', ''pred/x_00000001_out.png'')], [])"
proof -
  let ?gt = "[\<lparr>name = ''a_00000001.jpg'', path = ''gt/a_00000001.jpg''\<rparr>,
      \<lparr>name = ''b_00000001.jpg'', path = ''gt/b_00000001.jpg''\<rparr>]"
  let ?pred = "[\<lparr>name = ''x_00000001_out.png'', path = ''pred/x_00000001_out.png''\<rparr>]"
  have h1: "\<forall>f \<in> set ?gt. recognised f"
    by (simp add: recognised_def extract_id_from_filename_def isdigit_def isdecimal_def)
  have h2: "\<forall>p \<in> set ?pred. recognised p"
    by (simp add: recognised_def extract_id_from_filename_def isdigit_def isdecimal_def)
  have k: "key_of \<lparr>name = ''a_00000001.jpg'', path = ''gt/a_00000001.jpg''\<rparr> = ''00000001''"
    "key_of \<lparr>name = ''b_00000001.jpg'', path = ''gt/b_00000001.jpg''\<rparr> = ''00000001''"
    by (simp_all add: key_of_def extract_id_from_filename_def isdigit_def isdecimal_def)
  have "prepare_data ?gt ?pred = Inr ([(''gt/b_00000001.jpg'', ''pred/x_00000001_out.png'')], [])"
    using gt_dict_last_write_wins [OF h1 h2]
    by (simp add: prepare_data_def extract_id_from_filename_def isdigit_def isdecimal_def)
  with h1 h2 k show ?thesis by (simp add: list_all_iff)
qed

section \<open>Properties of the resize and of the accessor\<close>

lemma resize_ok:
  assumes "0 < height img" and "height img \<le> width img * H"
  shows "resize H img = Inr (img\<lparr>width := width img * H div height img, height := H\<rparr>)"
proof -
  from assms have "0 < width img * H div height img"
    by (simp add: div_greater_zero_iff)
  moreover from assms have "0 < H" by (cases H) auto
  ultimately show ?thesis using assms(1) by (simp add: resize_def pil_resize_def)
qed

lemma resize_fails:
  assumes "0 < height img" and "width img * H < height img"
  shows "resize H img = Inl ValueError"
  using assms by (simp add: resize_def pil_resize_def)

lemma resize_result:
  assumes "resize H img = Inr r"
  shows "0 < height img \<and> height img \<le> width img * H
     \<and> r = img\<lparr>width := width img * H div height img, height := H\<rparr>"
proof -
  from assms have h: "0 < height img"
    by (auto simp: resize_def Let_def split: if_splits)
  have "\<not> width img * H < height img"
    using resize_fails [OF h] assms by auto
  then have le: "height img \<le> width img * H" by simp
  from resize_ok [OF h le] assms h le show ?thesis by simp
qed

lemma resize_again:
  assumes "resize H img = Inr r"
  shows "height r = H \<and> resize H r = Inr r"
proof -
  from resize_result [OF assms] have h: "0 < height img" "height img \<le> width img * H"
    and r: "r = img\<lparr>width := width img * H div height img, height := H\<rparr>"
    by simp_all
  from h have w: "0 < width img * H div height img" by (simp add: div_greater_zero_iff)
  from h have H: "0 < H" by (cases H) auto
  from r have hr: "height r = H" and wr: "width r = width img * H div height img" by simp_all
  from w wr H have "height r \<le> width r * H" unfolding hr by (cases "width r") auto
  from resize_ok [OF _ this] H hr have "resize H r = Inr (r\<lparr>width := width r * H div H, height := H\<rparr>)"
    by simp
  with H hr show ?thesis by simp
qed

text \<open>
  C2, as amended. For every image of width \<open>w\<close> and height \<open>h > 0\<close> and every target
  height \<open>H\<close>: when \<open>w * H \<ge> h\<close>, \<open>resize\<close> returns an image of height \<open>H\<close> whose width is
  the real quotient \<open>w * H / h\<close> rounded down, the fraction cut off, not rounded to the
  nearest integer; when \<open>w * H < h\<close>, so that the width cut off is 0, \<open>resize\<close> raises
  \<open>ValueError\<close> and returns no image.
\<close>

theorem resize_truncates:
  assumes "0 < height img"
  shows "(height img \<le> width img * H \<longrightarrow>
           (\<exists>r. resize H img = Inr r \<and> height r = H
              \<and> int (width r) = \<lfloor>real (width img) * real H / real (height img)\<rfloor>))
     \<and> (width img * H < height img \<longrightarrow> resize H img = Inl ValueError)"
proof -
  have "\<lfloor>real (width img) * real H / real (height img)\<rfloor> = int (width img * H div height img)"
    by (metis floor_divide_of_nat_eq of_nat_mult)
  then show ?thesis using assms by (simp add: resize_ok resize_fails)
qed

theorem resize_truncates_witness:
  "0 < height \<lparr>width = 1000, height = 1500, bands = 3\<rparr>
   \<and> height \<lparr>width = 1000, height = 1500, bands = 3\<rparr>
        \<le> width \<lparr>width = 1000, height = 1500, bands = 3\<rparr> * 1024
   \<and> resize 1024 \<lparr>width = 1000, height = 1500, bands = 3\<rparr>
       = Inr \<lparr>width = 682, height = 1024, bands = 3\<rparr>
   \<and> 0 < height \<lparr>width = 1, height = 2000, bands = 3\<rparr>
   \<and> width \<lparr>width = 1, height = 2000, bands = 3\<rparr> * 1024
        < height \<lparr>width = 1, height = 2000, bands = 3\<rparr>
   \<and> resize 1024 \<lparr>width = 1, height = 2000, bands = 3\<rparr> = Inl ValueError"
proof -
  have h1: "0 < height \<lparr>width = 1000, height = 1500, bands = 3\<rparr>" by simp
  have h2: "0 < height \<lparr>width = 1, height = 2000, bands = 3\<rparr>" by simp
  from resize_truncates [OF h1, of 1024] resize_truncates [OF h2, of 1024] show ?thesis
    by (simp add: resize_def pil_resize_def)
qed

text \<open>
  C2 as stated fails: an image of 1000 by 1500 pixels resized to the height 1024 gets the
  width 682, and the quotient 682.67 rounded to the nearest integer is 683. And an image
  of 1 by 2000 pixels, whose quotient is 0.512, gets no image at all.
\<close>

theorem resize_round_counterexample:
  "resize 1024 \<lparr>width = 1000, height = 1500, bands = 3\<rparr>
       = Inr \<lparr>width = 682, height = 1024, bands = 3\<rparr>
   \<and> spec_new_width 1000 1024 1500 = 683
   \<and> resize 1024 \<lparr>width = 1, height = 2000, bands = 3\<rparr> = Inl ValueError"
  by (simp add: resize_def pil_resize_def spec_new_width_def round_def)

text \<open>
  C8, as amended. For every index \<open>i\<close> with \<open>0 \<le> i < len\<close> whose two paths lead to
  images of positive height: when both images keep a width of at least one pixel at the
  height \<open>self.height\<close>, that is \<open>w * self.height \<ge> h\<close> for each, \<open>getitem\<close> returns a pair
  of tensors and both have as many rows as \<open>self.height\<close>, whatever the two aspect ratios,
  while the numbers of columns are the two truncated quotients and may differ; when one
  of the images is so thin that its width is cut off to 0, \<open>getitem\<close> raises \<open>ValueError\<close>
  and returns nothing.
\<close>

theorem getitem_equal_height:
  assumes "0 \<le> i" and "i < int (len self)"
    and "self_data self ! nat i = (gt_path, pred_path)"
    and "files gt_path = Some g" and "files pred_path = Some p"
    and "0 < height g" and "0 < height p"
  shows "(height g \<le> width g * self_height self \<and> height p \<le> width p * self_height self \<longrightarrow>
          (\<exists>gt pred. getitem files self i = Inr (gt, pred)
             \<and> rows gt = self_height self \<and> rows pred = self_height self \<and> rows gt = rows pred
             \<and> cols gt = width g * self_height self div height g
             \<and> cols pred = width p * self_height self div height p))
     \<and> (width g * self_height self < height g \<or> width p * self_height self < height p \<longrightarrow>
          getitem files self i = Inl ValueError)"
proof (intro conjI impI)
  assume "height g \<le> width g * self_height self \<and> height p \<le> width p * self_height self"
  with assms show "\<exists>gt pred. getitem files self i = Inr (gt, pred)
             \<and> rows gt = self_height self \<and> rows pred = self_height self \<and> rows gt = rows pred
             \<and> cols gt = width g * self_height self div height g
             \<and> cols pred = width p * self_height self div height p"
    by (simp add: getitem_def len_def image_open_def resize_ok to_tensor_def)
next
  assume thin: "width g * self_height self < height g \<or> width p * self_height self < height p"
  show "getitem files self i = Inl ValueError"
  proof (cases "width g * self_height self < height g")
    case True
    with assms show ?thesis
      by (simp add: getitem_def len_def image_open_def resize_fails)
  next
    case False
    then have "height g \<le> width g * self_height self" by simp
    moreover from False thin have "width p * self_height self < height p" by simp
    ultimately show ?thesis using assms
      by (simp add: getitem_def len_def image_open_def resize_ok resize_fails)
  qed
qed

theorem getitem_equal_height_witness:
  "getitem [''gt/a.jpg'' \<mapsto> \<lparr>width = 768, height = 1024, bands = 3\<rparr>,
            ''pred/a.png'' \<mapsto> \<lparr>width = 1000, height = 1500, bands = 3\<rparr>]
      \<lparr>self_height = 512, self_data = [(''gt/a.jpg'', ''pred/a.png'')]\<rparr> 0
     = Inr (\<lparr>channels = 3, rows = 512, cols = 384\<rparr>, \<lparr>channels = 3, rows = 512, cols = 341\<rparr>)
   \<and> getitem [''gt/a.jpg'' \<mapsto> \<lparr>width = 768, height = 1024, bands = 3\<rparr>,
            ''pred/a.png'' \<mapsto> \<lparr>width = 1, height = 2000, bands = 3\<rparr>]
      \<lparr>self_height = 512, self_data = [(''gt/a.jpg'', ''pred/a.png'')]\<rparr> 0
     = Inl ValueError"
proof -
  let ?files = "[''gt/a.jpg'' \<mapsto> \<lparr>width = 768, height = 1024, bands = 3\<rparr>,
            ''pred/a.png'' \<mapsto> \<lparr>width = 1000, height = 1500, bands = 3\<rparr>]"
  let ?thin = "[''gt/a.jpg'' \<mapsto> \<lparr>width = 768, height = 1024, bands = 3\<rparr>,
            ''pred/a.png'' \<mapsto> \<lparr>width = 1, height = 2000, bands = 3\<rparr>]"
  let ?self = "\<lparr>self_height = 512, self_data = [(''gt/a.jpg'', ''pred/a.png'')]\<rparr>"
  have h: "(0::int) \<le> 0" "0 < int (len ?self)"
    "self_data ?self ! nat 0 = (''gt/a.jpg'', ''pred/a.png'')"
    "?files ''gt/a.jpg'' = Some \<lparr>width = 768, height = 1024, bands = 3\<rparr>"
    "?files ''pred/a.png'' = Some \<lparr>width = 1000, height = 1500, bands = 3\<rparr>"
    "0 < height \<lparr>width = 768, height = 1024, bands = 3\<rparr>"
    "0 < height \<lparr>width = 1000, height = 1500, bands = 3\<rparr>"
    by (simp_all add: len_def)
  have t: "(0::int) \<le> 0" "0 < int (len ?self)"
    "self_data ?self ! nat 0 = (''gt/a.jpg'', ''pred/a.png'')"
    "?thin ''gt/a.jpg'' = Some \<lparr>width = 768, height = 1024, bands = 3\<rparr>"
    "?thin ''pred/a.png'' = Some \<lparr>width = 1, height = 2000, bands = 3\<rparr>"
    "0 < height \<lparr>width = 768, height = 1024, bands = 3\<rparr>"
    "0 < height \<lparr>width = 1, height = 2000, bands = 3\<rparr>"
    by (simp_all add: len_def)
  from getitem_equal_height [OF h] getitem_equal_height [OF t] show ?thesis
    by (simp add: getitem_def image_open_def resize_def pil_resize_def to_tensor_def)
qed

text \<open>
  C8 as stated fails: the index 0 is in range, the prediction is an image of 1 by 2000
  pixels, its width at the height 1024 is cut off to 0, and \<open>getitem\<close> raises instead of
  returning two tensors.
\<close>

theorem getitem_thin_image_counterexample:
  "0 < len \<lparr>self_height = 1024, self_data = [(''gt/a.jpg'', ''pred/a.png'')]\<rparr>
   \<and> getitem [''gt/a.jpg'' \<mapsto> \<lparr>width = 768, height = 1024, bands = 3\<rparr>,
            ''pred/a.png'' \<mapsto> \<lparr>width = 1, height = 2000, bands = 3\<rparr>]
      \<lparr>self_height = 1024, self_data = [(''gt/a.jpg'', ''pred/a.png'')]\<rparr> 0
     = Inl ValueError"
  by (simp add: len_def getitem_def image_open_def resize_def pil_resize_def)

text \<open>
  C10. \<open>resize\<close> returns a decoded image, of positive width and height, whose height is
  already the target height \<open>H\<close> unchanged, width and height the same; so the result of
  one \<open>resize\<close> is returned as it is by a second one, and the second \<open>resize\<close> of the
  accessor, guarded by a height different from \<open>H\<close>, leaves the image as the first one
  made it.
\<close>

theorem resize_fixpoint:
  assumes "0 < width img" and "0 < height img" and "0 < H"
  shows "(height img = H \<longrightarrow> resize H img = Inr img)
     \<and> (height img \<le> width img * H \<longrightarrow>
          (\<exists>r. resize H img = Inr r \<and> height r = H \<and> resize H r = Inr r
             \<and> (if height r \<noteq> H then resize H r else Inr r) = Inr r))
     \<and> (\<forall>r. resize H img = Inr r \<longrightarrow>
          height r = H \<and> resize H r = Inr r
             \<and> (if height r \<noteq> H then resize H r else Inr r) = Inr r)"
proof (intro conjI impI allI)
  assume eq: "height img = H"
  with assms(1,2) have "height img \<le> width img * H" by (cases "width img") auto
  from resize_ok [OF assms(2) this] eq assms(2) show "resize H img = Inr img" by simp
next
  assume "height img \<le> width img * H"
  from resize_ok [OF assms(2) this] obtain r where r: "resize H img = Inr r" by blast
  with resize_again [OF r] show "\<exists>r. resize H img = Inr r \<and> height r = H \<and> resize H r = Inr r
             \<and> (if height r \<noteq> H then resize H r else Inr r) = Inr r"
    by simp
next
  fix r assume r: "resize H img = Inr r"
  from resize_again [OF r] show "height r = H" "resize H r = Inr r"
    "(if height r \<noteq> H then resize H r else Inr r) = Inr r"
    by simp_all
qed

theorem resize_fixpoint_witness:
  "0 < width \<lparr>width = 384, height = 512, bands = 3\<rparr>
   \<and> 0 < height \<lparr>width = 384, height = 512, bands = 3\<rparr> \<and> (0::nat) < 512
   \<and> height \<lparr>width = 384, height = 512, bands = 3\<rparr> = 512
   \<and> resize 512 \<lparr>width = 384, height = 512, bands = 3\<rparr>
       = Inr \<lparr>width = 384, height = 512, bands = 3\<rparr>"
proof -
  have h: "0 < width \<lparr>width = 384, height = 512, bands = 3\<rparr>"
    "0 < height \<lparr>width = 384, height = 512, bands = 3\<rparr>" "(0::nat) < 512" by simp_all
  from resize_fixpoint [OF h] h show ?thesis by simp
qed

section \<open>Properties of the bulk resize pass\<close>

lemma copy_loop_other:
  "copy_loop render nf listing fs w = (r, fs', w') \<Longrightarrow> folder \<noteq> nf \<Longrightarrow> fs' folder = fs folder"
proof (induction listing arbitrary: fs w)
  case Nil
  then show ?case by simp
next
  case (Cons x listing)
  obtain f bytes where x: "x = (f, bytes)" by (cases x)
  from Cons.prems Cons.IH show ?case unfolding x
    by (auto simp: save_in_def split: if_splits sum.splits option.splits)
qed

lemma copy_loop_mono:
  "copy_loop render nf listing fs w = (r, fs', w') \<Longrightarrow> exists_in fs nf f \<Longrightarrow> exists_in fs' nf f"
proof (induction listing arbitrary: fs w)
  case Nil
  then show ?case by simp
next
  case (Cons x listing)
  obtain g bytes where x: "x = (g, bytes)" by (cases x)
  show ?case
  proof (cases "exists_in fs nf g")
    case True
    with Cons.prems Cons.IH show ?thesis unfolding x by auto
  next
    case False
    show ?thesis
    proof (cases "render bytes")
      case (Inl e)
      with False Cons.prems show ?thesis unfolding x by auto
    next
      case (Inr out)
      show ?thesis
      proof (cases "save_in fs nf g out")
        case (Inl e)
        with False Inr Cons.prems show ?thesis unfolding x by auto
      next
        case (Inr fs1)
        with False \<open>render bytes = Inr out\<close> Cons.prems(1)
        have run: "copy_loop render nf listing fs1 (w @ [g]) = (r, fs', w')"
          unfolding x by simp
        from Inr Cons.prems(2) have "exists_in fs1 nf f"
          by (force simp: save_in_def exists_in_def split: option.splits)
        with Cons.IH [OF run] show ?thesis .
      qed
    qed
  qed
qed

lemma copy_loop_dom:
  "copy_loop render nf listing fs w = (r, fs', w') \<Longrightarrow> fs nf \<noteq> None \<Longrightarrow> fs' nf \<noteq> None"
proof (induction listing arbitrary: fs w)
  case Nil
  then show ?case by simp
next
  case (Cons x listing)
  obtain g bytes where x: "x = (g, bytes)" by (cases x)
  from Cons.prems Cons.IH show ?case unfolding x
    by (fastforce simp: save_in_def split: if_splits sum.splits option.splits)
qed

lemma copy_loop_again:
  "copy_loop render nf listing fs w = (r, fs', w') \<Longrightarrow>
     copy_loop render nf listing fs' w0 = (r, fs', w0)"
proof (induction listing arbitrary: fs w)
  case Nil
  then show ?case by simp
next
  case (Cons x listing)
  obtain g bytes where x: "x = (g, bytes)" by (cases x)
  show ?case
  proof (cases "exists_in fs nf g")
    case True
    with Cons.prems have run: "copy_loop render nf listing fs w = (r, fs', w')"
      unfolding x by simp
    from copy_loop_mono [OF run True] have "exists_in fs' nf g" .
    with Cons.IH [OF run] show ?thesis unfolding x by simp
  next
    case False
    show ?thesis
    proof (cases "render bytes")
      case (Inl e)
      with False Cons.prems show ?thesis unfolding x by auto
    next
      case (Inr out)
      show ?thesis
      proof (cases "save_in fs nf g out")
        case (Inl e)
        with False Inr Cons.prems show ?thesis unfolding x by auto
      next
        case (Inr fs1)
        with False \<open>render bytes = Inr out\<close> Cons.prems(1)
        have run: "copy_loop render nf listing fs1 (w @ [g]) = (r, fs', w')"
          unfolding x by simp
        from Inr have "exists_in fs1 nf g"
          by (auto simp: save_in_def exists_in_def split: option.splits)
        from copy_loop_mono [OF run this] have "exists_in fs' nf g" .
        with Cons.IH [OF run] show ?thesis unfolding x by simp
      qed
    qed
  qed
qed

lemma copy_resize_gt_unfold:
  assumes "nf = gt_folder @ ''_'' @ str h"
    and "fs1 = (if fs nf = None then fs(nf \<mapsto> []) else fs)"
  shows "copy_resize_gt save_resized fs gt_folder h w =
     (case fs1 gt_folder of
        None \<Rightarrow> (Inl (FileNotFoundError gt_folder), fs1, [])
      | Some listing \<Rightarrow>
          (case copy_loop (save_resized w h) nf listing fs1 [] of
             (None, fs2, written) \<Rightarrow> (Inr nf, fs2, written)
           | (Some e, fs2, written) \<Rightarrow> (Inl e, fs2, written)))"
  unfolding copy_resize_gt_def Let_def assms ..

text \<open>
  C9. Whatever the first run of \<open>copy_resize_gt\<close> returned and left in the file system,
  a second run with the same arguments on that file system finds every target file of
  the first run present and skips it, writes no file, returns what the first run
  returned, and leaves the file system, the folder named by the height suffix in it, as
  it was.
\<close>

theorem copy_resize_gt_idempotent:
  assumes "copy_resize_gt save_resized fs gt_folder h w = (r, fs', written)"
  shows "copy_resize_gt save_resized fs' gt_folder h w = (r, fs', [])"
proof -
  define nf where "nf = gt_folder @ ''_'' @ str h"
  define fs1 where "fs1 = (if fs nf = None then fs(nf \<mapsto> []) else fs)"
  have nf: "fs1 nf \<noteq> None" by (simp add: fs1_def)
  have neq: "gt_folder \<noteq> nf" by (simp add: nf_def)
  note first = copy_resize_gt_unfold [OF nf_def fs1_def, of save_resized w]
  show ?thesis
  proof (cases "fs1 gt_folder")
    case None
    with assms first have res: "r = Inl (FileNotFoundError gt_folder)" "fs' = fs1"
      by simp_all
    have "fs1 = (if fs1 nf = None then fs1(nf \<mapsto> []) else fs1)" using nf by auto
    from copy_resize_gt_unfold [OF nf_def this, of save_resized w] None res
    show ?thesis by simp
  next
    case (Some listing)
    obtain e fs2 wr where run: "copy_loop (save_resized w h) nf listing fs1 [] = (e, fs2, wr)"
      by (cases "copy_loop (save_resized w h) nf listing fs1 []") auto
    with Some assms first
    have res: "fs' = fs2" "r = (case e of None \<Rightarrow> Inr nf | Some e' \<Rightarrow> Inl e')"
      by (auto split: option.splits)
    from copy_loop_dom [OF run nf] have nf2: "fs2 nf \<noteq> None" .
    from copy_loop_other [OF run neq] Some have gt2: "fs2 gt_folder = Some listing" by simp
    from copy_loop_again [OF run, of "[]"]
    have again: "copy_loop (save_resized w h) nf listing fs2 [] = (e, fs2, [])" .
    have "fs2 = (if fs2 nf = None then fs2(nf \<mapsto> []) else fs2)" using nf2 by auto
    from copy_resize_gt_unfold [OF nf_def this, of save_resized w] gt2 again res
    show ?thesis by (auto split: option.splits)
  qed
qed


theorem copy_resize_gt_idempotent_witness:
  "copy_resize_gt (\<lambda>w h bytes. if bytes = ''dir'' then Inl (ResizeIOError bytes) else Inr (str w @ ''x'' @ str h @ '':'' @ bytes))
      [''gt'' \<mapsto> [(''a.jpg'', ''A''), (''b.jpg'', ''B'')], ''gt_512'' \<mapsto> [(''a.jpg'', ''old'')]]
      ''gt'' 512 384
     = (Inr ''gt_512'',
        [''gt'' \<mapsto> [(''a.jpg'', ''A''), (''b.jpg'', ''B'')],
         ''gt_512'' \<mapsto> [(''a.jpg'', ''old''), (''b.jpg'', ''384x512:B'')]],
        [''b.jpg''])
   \<and> copy_resize_gt (\<lambda>w h bytes. if bytes = ''dir'' then Inl (ResizeIOError bytes) else Inr (str w @ ''x'' @ str h @ '':'' @ bytes))
      [''gt'' \<mapsto> [(''a.jpg'', ''A''), (''b.jpg'', ''B'')],
       ''gt_512'' \<mapsto> [(''a.jpg'', ''old''), (''b.jpg'', ''384x512:B'')]]
      ''gt'' 512 384
     = (Inr ''gt_512'',
        [''gt'' \<mapsto> [(''a.jpg'', ''A''), (''b.jpg'', ''B'')],
         ''gt_512'' \<mapsto> [(''a.jpg'', ''old''), (''b.jpg'', ''384x512:B'')]],
        [])"
proof -
  have s512: "str 512 = ''512''" and s384: "str 384 = ''384''"
    by (simp_all add: str.simps)
  have first: "copy_resize_gt (\<lambda>w h bytes. if bytes = ''dir'' then Inl (ResizeIOError bytes) else Inr (str w @ ''x'' @ str h @ '':'' @ bytes))
      [''gt'' \<mapsto> [(''a.jpg'', ''A''), (''b.jpg'', ''B'')], ''gt_512'' \<mapsto> [(''a.jpg'', ''old'')]]
      ''gt'' 512 384
     = (Inr ''gt_512'',
        [''gt'' \<mapsto> [(''a.jpg'', ''A''), (''b.jpg'', ''B'')],
         ''gt_512'' \<mapsto> [(''a.jpg'', ''old''), (''b.jpg'', ''384x512:B'')]],
        [''b.jpg''])"
    by (simp add: copy_resize_gt_def Let_def s512 s384 exists_in_def save_in_def fun_upd_twist)
  from copy_resize_gt_idempotent [OF first] first show ?thesis by simp
qed

section \<open>Properties of the paired metrics\<close>

lemma concat_chunks: "0 < bs \<Longrightarrow> concat (chunks bs xs) = xs"
  by (induction bs xs rule: chunks.induct) simp_all

lemma length_chunks: "0 < bs \<Longrightarrow> (\<Sum>b\<leftarrow>chunks bs xs. length b) = length xs"
  using concat_chunks [of bs xs] length_concat [of "chunks bs xs"] by simp

lemma psnr_loop_sum:
  "psnr_loop m bs acc = acc + (\<Sum>b\<leftarrow>bs. m (map snd b) (map fst b) * real (length b))"
  by (induction bs arbitrary: acc) (simp_all add: Let_def)

lemma ssim_loop_sum:
  "ssim_loop m bs acc = acc + (\<Sum>b\<leftarrow>bs. m (map snd b) (map fst b) * real (length b))"
  by (induction bs arbitrary: acc) (simp_all add: Let_def)

lemma lpips_loop_sum:
  "lpips_loop m rescale bs acc =
     acc + (\<Sum>b\<leftarrow>bs. m (map rescale (map fst b)) (map rescale (map snd b)) * real (length b))"
  by (induction bs arbitrary: acc) (simp_all add: Let_def)

text \<open>
  C1. For a positive batch size and a dataset that is not empty, each of \<open>psnr\<close>, \<open>ssim\<close>
  and \<open>lpips\<close> returns the sum over the batches of the metric of the batch times the size
  of the batch, divided by the number of samples, which is the sum of the sizes of the
  batches. With 13 samples in batches of 10, a metric of 0.8 on the first batch and of 0.5
  on the second gives \<open>(0.8 * 10 + 0.5 * 3) / 13\<close>, not the mean 0.65 of the two values.
\<close>

theorem paired_metrics_weighted_average:
  assumes "0 < batch_size" and "ds \<noteq> []"
  shows "psnr p (DataLoader ds batch_size) =
       Inr ((\<Sum>b\<leftarrow>batches (DataLoader ds batch_size). p (map snd b) (map fst b) * real (length b))
            / real (length ds))
     \<and> ssim s (DataLoader ds batch_size) =
       Inr ((\<Sum>b\<leftarrow>batches (DataLoader ds batch_size). s (map snd b) (map fst b) * real (length b))
            / real (length ds))
     \<and> lpips l rescale (DataLoader ds batch_size) =
       Inr ((\<Sum>b\<leftarrow>batches (DataLoader ds batch_size).
               l (map rescale (map fst b)) (map rescale (map snd b)) * real (length b))
            / real (length ds))
     \<and> (\<Sum>b\<leftarrow>batches (DataLoader ds batch_size). length b) = length ds
     \<and> concat (batches (DataLoader ds batch_size)) = ds"
  using assms
  by (simp add: psnr_def ssim_def lpips_def DataLoader_def psnr_loop_sum ssim_loop_sum
      lpips_loop_sum length_chunks concat_chunks)

theorem paired_metrics_weighted_average_witness:
  "(0::nat) < 10
   \<and> batches (DataLoader [(0::nat, 0::nat), (1, 1), (2, 2), (3, 3), (4, 4), (5, 5), (6, 6),
        (7, 7), (8, 8), (9, 9), (10, 10), (11, 11), (12, 12)] 10)
      = [[(0, 0), (1, 1), (2, 2), (3, 3), (4, 4), (5, 5), (6, 6), (7, 7), (8, 8), (9, 9)],
         [(10, 10), (11, 11), (12, 12)]]
   \<and> psnr (\<lambda>pred gt. if length pred = 10 then 8 / 10 else 5 / 10)
       (DataLoader [(0::nat, 0::nat), (1, 1), (2, 2), (3, 3), (4, 4), (5, 5), (6, 6),
        (7, 7), (8, 8), (9, 9), (10, 10), (11, 11), (12, 12)] 10)
      = Inr ((8 / 10 * 10 + 5 / 10 * 3) / 13)
   \<and> (8 / 10 * 10 + 5 / 10 * 3) / 13 \<noteq> ((8 / 10 + 5 / 10) / 2 :: real)"
proof -
  let ?ds = "[(0::nat, 0::nat), (1, 1), (2, 2), (3, 3), (4, 4), (5, 5), (6, 6),
        (7, 7), (8, 8), (9, 9), (10, 10), (11, 11), (12, 12)]"
  have h1: "(0::nat) < 10" by simp
  have h2: "?ds \<noteq> []" by simp
  have b: "batches (DataLoader ?ds 10)
      = [[(0, 0), (1, 1), (2, 2), (3, 3), (4, 4), (5, 5), (6, 6), (7, 7), (8, 8), (9, 9)],
         [(10, 10), (11, 11), (12, 12)]]"
    by (simp add: DataLoader_def)
  from paired_metrics_weighted_average [OF h1 h2,
      of "\<lambda>pred gt. if length pred = 10 then 8 / 10 else 5 / 10"]
  have "psnr (\<lambda>pred gt. if length pred = 10 then 8 / 10 else 5 / 10) (DataLoader ?ds 10)
      = Inr ((8 / 10 * 10 + 5 / 10 * 3) / 13)"
    unfolding b by simp
  with b show ?thesis by simp
qed

end
